theory Spec2Isabelle
  imports Main "HOL-Library.Sublist"
begin

section \<open>The embedded-Lua template driver of lua.go\<close>

text \<open>
  The development follows \<^verbatim>\<open>src/lua.go\<close>: the marker scanner (\<^verbatim>\<open>isStart\<close>,
  \<^verbatim>\<open>isEnd\<close>), the \<^verbatim>\<open>print\<close> binding registered on the Lua state, and the driver
  \<^verbatim>\<open>Interpret\<close>.

  A document is a Go \<^verbatim>\<open>[]byte\<close>; it is modelled as a \<^typ>\<open>string\<close>, a list of
  8-bit characters. Indices and the line counter are Go \<^verbatim>\<open>int\<close>s that stay
  between 0 and the length of the document plus five, so they are natural
  numbers here and no wrap-around can occur.
\<close>

subsection \<open>Marker scanner\<close>

definition startSeq :: string where
  "startSeq = ''<?lua''"

definition endSeq :: string where
  "endSeq = ''?>''"

text \<open>
  The loop of \<^verbatim>\<open>isStart\<close>: \<^verbatim>\<open>for i := 0; i < 5; i++\<close>, returning false at the first
  byte that differs.
\<close>

function isStart_loop :: "nat \<Rightarrow> nat \<Rightarrow> string \<Rightarrow> bool" where
  "isStart_loop i start slice =
     (if i < 5 then
        (if startSeq ! i \<noteq> slice ! (start + i) then False
         else isStart_loop (i + 1) start slice)
      else True)"
  by pat_completeness auto
termination
  by (relation "measure (\<lambda>(i, start, slice). 5 - i)") auto

declare isStart_loop.simps [simp del]

definition isStart :: "nat \<Rightarrow> string \<Rightarrow> bool" where
  "isStart start slice =
     (if start + 5 \<ge> length slice then False
      else isStart_loop 0 start slice)"

definition isEnd :: "nat \<Rightarrow> string \<Rightarrow> bool" where
  "isEnd start slice =
     (if start + 1 \<ge> length slice then False
      else if slice ! start = CHR ''?'' \<and> slice ! (start + 1) = CHR ''>'' then True
      else False)"

subsection \<open>The collaborators: Lua interpreter and destination writer\<close>

text \<open>
  \<^verbatim>\<open>L.DoString\<close> belongs to the gopher-lua library and \<^verbatim>\<open>out\<close> is any
  \<^verbatim>\<open>io.Writer\<close>; both are parameters of the model.

  Running a chunk on a Lua state of type \<open>'l\<close> has one of three outcomes. While it
  runs, the chunk may call the registered \<^verbatim>\<open>print\<close> binding any number of times;
  each call is recorded as the list of its argument values (of type \<open>'v\<close>), in the
  order the calls happen. The binding returns nothing to the chunk, so the chunk
  cannot observe the output buffer, and these lists describe all the chunk does
  to it.
  \<^item> \<open>Finished l calls\<close>: \<^verbatim>\<open>DoString\<close> returned \<^verbatim>\<open>nil\<close>;
  \<^item> \<open>Raised l calls msg\<close>: \<^verbatim>\<open>DoString\<close> returned an error whose text is \<open>msg\<close>;
  \<^item> \<open>Hangs\<close>: the chunk never returns.
\<close>

datatype ('l, 'v) outcome =
    Finished 'l "'v list list"
  | Raised 'l "'v list list" string
  | Hangs

text \<open>
  \<open>NewState\<close> is \<^verbatim>\<open>lua.NewState()\<close>, \<open>DoString\<close> is \<^verbatim>\<open>L.DoString\<close>, \<open>String\<close> is the
  \<^verbatim>\<open>String()\<close> method of a Lua value, and \<open>Write\<close> is the \<^verbatim>\<open>Write\<close> method of the
  destination: it takes the writer's state and a byte slice and gives the new
  state and the error, if any (the byte count it also returns is never read by
  \<^verbatim>\<open>Interpret\<close>).
\<close>

record ('l, 'v, 'w) env =
  NewState :: 'l
  DoString :: "'l \<Rightarrow> string \<Rightarrow> ('l, 'v) outcome"
  String :: "'v \<Rightarrow> string"
  Write :: "'w \<Rightarrow> string \<Rightarrow> 'w \<times> string option"

text \<open>
  \<^verbatim>\<open>bytes.Buffer\<close>, the writer that \<^verbatim>\<open>ServeHTTP\<close> passes (lines 73-74): its state is
  its content, a write appends and never reports an error.
\<close>

definition Buffer_Write :: "string \<Rightarrow> string \<Rightarrow> string \<times> string option" where
  "Buffer_Write w p = (w @ p, None)"

subsection \<open>The print binding\<close>

text \<open>
  Lines 99-109. \<open>args\<close> is the Lua stack of the call, \<^verbatim>\<open>L.GetTop()\<close> its length and
  \<^verbatim>\<open>L.Get(i)\<close> the \<open>i\<close>-th argument, counted from 1. \<open>print_loop\<close> is the
  \<^verbatim>\<open>for i := 1; i <= top; i++\<close> loop, started at \<open>i = 1\<close>.
\<close>

function print_loop :: "('v \<Rightarrow> string) \<Rightarrow> 'v list \<Rightarrow> nat \<Rightarrow> string \<Rightarrow> string" where
  "print_loop S args i buf =
     (if i \<le> length args then
        (let buf1 = buf @ S (args ! (i - 1));
             buf2 = (if i \<noteq> length args then buf1 @ '' '' else buf1)
         in print_loop S args (i + 1) buf2)
      else buf)"
  by pat_completeness auto
termination
  by (relation "measure (\<lambda>(S, args, i, buf). Suc (length args) - i)") auto

declare print_loop.simps [simp del]

text \<open>
  The binding gives the new content of \<^verbatim>\<open>luaOut\<close> and the number of values it
  returns to the script.
\<close>

definition print :: "('v \<Rightarrow> string) \<Rightarrow> 'v list \<Rightarrow> string \<Rightarrow> string \<times> nat" where
  "print S args luaOut = (print_loop S args 1 luaOut @ [CHR 0x0A], 0)"

text \<open>The effect on \<^verbatim>\<open>luaOut\<close> of the print calls of one chunk.\<close>

definition run_prints :: "('v \<Rightarrow> string) \<Rightarrow> 'v list list \<Rightarrow> string \<Rightarrow> string" where
  "run_prints S calls luaOut = foldl (\<lambda>b args. fst (print S args b)) luaOut calls"

subsection \<open>The driver\<close>

text \<open>
  The values \<^verbatim>\<open>Interpret\<close> returns: \<^verbatim>\<open>nil\<close> is \<open>None\<close>; \<open>LuaError line msg\<close> is
  \<^verbatim>\<open>fmt.Errorf("Lua Error (Line %d): %s", line, err)\<close>; \<open>WriteError e\<close> is the error
  \<open>e\<close> of the destination, returned as it is (line 138).
\<close>

datatype error = LuaError nat string | WriteError string

text \<open>The text of the error: \<^verbatim>\<open>%d\<close> prints the line in decimal.\<close>

fun decimal :: "nat \<Rightarrow> string" where
  "decimal n =
     (if n < 10 then [''0123456789'' ! n]
      else decimal (n div 10) @ [''0123456789'' ! (n mod 10)])"

declare decimal.simps [simp del]

fun Error :: "error \<Rightarrow> string" where
  "Error (LuaError n msg) = ''Lua Error (Line '' @ decimal n @ ''): '' @ msg"
| "Error (WriteError e) = e"

text \<open>
  The local variables of \<^verbatim>\<open>Interpret\<close> and the writer it was given. \<open>dispatched\<close>
  is not a variable of the code: it is the log of the calls of \<^verbatim>\<open>L.DoString\<close>
  made so far, each with the chunk passed and the content of \<^verbatim>\<open>luaOut\<close> at the
  moment of the call.
\<close>

record ('l, 'w) state =
  out :: 'w
  L :: 'l
  luaOut :: string
  luaIn :: string
  inCode :: bool
  line :: nat
  dispatched :: "(string \<times> string) list"

text \<open>
  Lines 143-155, the code after the loop. The result is \<open>None\<close> when the call
  never returns, and otherwise the value returned with the state at the return.
  The result of \<^verbatim>\<open>out.Write\<close> in line 152 is discarded by the code. The
  \<^verbatim>\<open>fmt.Printf\<close> of line 146 writes to the standard output of the process and
  touches nothing of the state.
\<close>

definition atEOF ::
  "('l, 'v, 'w) env \<Rightarrow> ('l, 'w) state \<Rightarrow> (error option \<times> ('l, 'w) state) option" where
  "atEOF P st =
     (if inCode st \<and> length (luaIn st) > 0 then
        (case DoString P (L st) (luaIn st) of
           Hangs \<Rightarrow> None
         | Raised l calls msg \<Rightarrow>
             Some (Some (LuaError (line st) msg),
                   st\<lparr>L := l, luaOut := run_prints (String P) calls (luaOut st),
                      dispatched := dispatched st @ [(luaIn st, luaOut st)]\<rparr>)
         | Finished l calls \<Rightarrow>
             (let lo = run_prints (String P) calls (luaOut st);
                  w = fst (Write P (out st) lo)
              in Some (None,
                       st\<lparr>out := w, L := l, luaOut := lo,
                          dispatched := dispatched st @ [(luaIn st, luaOut st)]\<rparr>)))
      else Some (None, st))"

text \<open>
  Lines 113-141, the loop \<^verbatim>\<open>for i := 0; i < len(src); i++\<close>, followed by the code
  after it. The \<^verbatim>\<open>i++\<close> of line 120 and the \<^verbatim>\<open>i += 4\<close> of line 135 are added to the
  increment of the loop header. The result of \<^verbatim>\<open>out.Write\<close> in line 126 is
  discarded by the code; the one of line 137 is checked.
\<close>

function loop ::
  "('l, 'v, 'w) env \<Rightarrow> string \<Rightarrow> nat \<Rightarrow> ('l, 'w) state \<Rightarrow>
     (error option \<times> ('l, 'w) state) option" where
  "loop P src i st =
     (if i < length src then
        (let st1 = (if src ! i = CHR 0x0A then st\<lparr>line := line st + 1\<rparr> else st)
         in if inCode st1 then
              (if isEnd i src then
                 (case DoString P (L st1) (luaIn st1) of
                    Hangs \<Rightarrow> None
                  | Raised l calls msg \<Rightarrow>
                      Some (Some (LuaError (line st1) msg),
                            st1\<lparr>L := l,
                                luaOut := run_prints (String P) calls (luaOut st1),
                                dispatched := dispatched st1 @ [(luaIn st1, luaOut st1)]\<rparr>)
                  | Finished l calls \<Rightarrow>
                      (let lo = run_prints (String P) calls (luaOut st1);
                           w = fst (Write P (out st1) lo)
                       in loop P src (i + 2)
                            (st1\<lparr>out := w, L := l, luaOut := [], luaIn := [],
                                inCode := False,
                                dispatched := dispatched st1 @ [(luaIn st1, luaOut st1)]\<rparr>)))
               else loop P src (i + 1) (st1\<lparr>luaIn := luaIn st1 @ [src ! i]\<rparr>))
            else
              (if isStart i src then loop P src (i + 5) (st1\<lparr>inCode := True\<rparr>)
               else
                 (case Write P (out st1) [src ! i] of
                    (w, Some e) \<Rightarrow> Some (Some (WriteError e), st1\<lparr>out := w\<rparr>)
                  | (w, None) \<Rightarrow> loop P src (i + 1) (st1\<lparr>out := w\<rparr>))))
      else atEOF P st)"
  by pat_completeness auto
termination
  by (relation "measure (\<lambda>(P, src, i, st). length src - i)") auto

declare loop.simps [simp del]

text \<open>
  \<^verbatim>\<open>Interpret(out, src)\<close>: a fresh Lua state, empty buffers, \<^verbatim>\<open>inCode = false\<close>,
  \<^verbatim>\<open>line = 1\<close>; \<open>w\<close> is the state of the writer \<^verbatim>\<open>out\<close> at the call.
\<close>

definition Interpret ::
  "('l, 'v, 'w) env \<Rightarrow> 'w \<Rightarrow> string \<Rightarrow> (error option \<times> ('l, 'w) state) option" where
  "Interpret P w src =
     loop P src 0
       \<lparr>out = w, L = NewState P, luaOut = [], luaIn = [], inCode = False,
        line = 1, dispatched = []\<rparr>"

section \<open>Vocabulary of the specification\<close>

text \<open>
  The number of line terminators in a text, and the 1-based line on which the
  byte at offset \<open>k\<close> of a document stands.
\<close>

definition newlines :: "string \<Rightarrow> nat" where
  "newlines s = length (filter (\<lambda>c. c = CHR 0x0A) s)"

definition line_of :: "string \<Rightarrow> nat \<Rightarrow> nat" where
  "line_of src k = 1 + newlines (take k src)"

text \<open>
  \<open>occurs p s\<close>: the byte sequence \<open>p\<close> occurs somewhere in \<open>s\<close>.
  \<open>opens s\<close>: the open marker occurs in \<open>s\<close> with at least one more byte after it
  (``open = \<^verbatim>\<open><?lua\<close> (5 bytes) followed by any byte'').
\<close>

fun occurs :: "string \<Rightarrow> string \<Rightarrow> bool" where
  "occurs p [] = (p = [])"
| "occurs p (c # cs) = (prefix p (c # cs) \<or> occurs p cs)"

fun opens :: "string \<Rightarrow> bool" where
  "opens [] = False"
| "opens (c # cs) = ((prefix startSeq (c # cs) \<and> length (c # cs) > 5) \<or> opens cs)"

text \<open>
  A document seen as the specification describes it: script regions, each with the
  literal text in front of it, followed by a tail. A pair \<open>(lit, s)\<close> is the literal
  text \<open>lit\<close> and then the region \<^verbatim>\<open><?lua\<close>\<open>s\<close>\<^verbatim>\<open>?>\<close>; \<open>body\<close> writes the pairs out as
  document bytes. In a well-formed list no literal text contains the open marker
  and no script contains the close marker, so that the pairs are exactly the
  regions a left-to-right reader finds.

  The tail is either literal text \<open>t\<close> without an open marker (\<open>\<not> opens t\<close>), or
  literal text and a last region that the end of the document cuts off,
  \<open>lit @ startSeq @ b\<close> with \<open>open_tail_ok lit b\<close>.
\<close>

definition body :: "(string \<times> string) list \<Rightarrow> string" where
  "body segs = concat (map (\<lambda>(lit, s). lit @ startSeq @ s @ endSeq) segs)"

definition well_formed :: "(string \<times> string) list \<Rightarrow> bool" where
  "well_formed segs =
     list_all (\<lambda>(lit, s). \<not> occurs startSeq lit \<and> \<not> occurs endSeq s) segs"

definition open_tail_ok :: "string \<Rightarrow> string \<Rightarrow> bool" where
  "open_tail_ok lit b = (\<not> occurs startSeq lit \<and> b \<noteq> [] \<and> \<not> occurs endSeq b)"

text \<open>
  What the print calls of one chunk write into an empty output buffer, and what
  one call writes according to the specification: the texts of the arguments with
  a single space between neighbours.
\<close>

definition printed :: "('l, 'v, 'w) env \<Rightarrow> 'v list list \<Rightarrow> string" where
  "printed P calls = run_prints (String P) calls []"

fun spaced :: "string list \<Rightarrow> string" where
  "spaced [] = []"
| "spaced [x] = x"
| "spaced (x # y # zs) = x @ '' '' @ spaced (y # zs)"

text \<open>
  The text the specification expects for the regions of a document: every region
  is run in turn on the Lua state its predecessor left, and is replaced by what it
  printed. The result is \<open>None\<close> unless every region finishes without error;
  otherwise it is the Lua state after the last region and the text.
\<close>

fun render ::
  "('l, 'v, 'w) env \<Rightarrow> 'l \<Rightarrow> (string \<times> string) list \<Rightarrow> ('l \<times> string) option" where
  "render P l [] = Some (l, [])"
| "render P l ((lit, s) # segs) =
     (case DoString P l s of
        Finished l' calls \<Rightarrow>
          (case render P l' segs of
             Some (l'', res) \<Rightarrow> Some (l'', lit @ printed P calls @ res)
           | None \<Rightarrow> None)
      | Raised l' calls msg \<Rightarrow> None
      | Hangs \<Rightarrow> None)"

section \<open>A sample interpreter and two writers\<close>

text \<open>
  The theorems below hold for every interpreter and are instantiated, in the
  scenarios of the specification, with a stand-in for gopher-lua that knows the
  chunks of these scenarios and what Lua does with them: \<^verbatim>\<open>print\<close> calls the binding
  with its arguments, \<^verbatim>\<open>error("boom")\<close> raises with the position of the call inside
  the chunk, \<^verbatim>\<open>--\<close> starts a comment, and any other chunk is taken not to parse.
  The Lua state carries nothing here.
\<close>

datatype lvalue = LNumber nat | LString string

fun lvalue_String :: "lvalue \<Rightarrow> string" where
  "lvalue_String (LNumber n) = decimal n"
| "lvalue_String (LString s) = s"

definition demo_DoString :: "unit \<Rightarrow> string \<Rightarrow> (unit, lvalue) outcome" where
  \<open>demo_DoString l chunk =
     (if chunk = '' print("World") '' then Finished l [[LString ''World'']]
      else if chunk = '' print(1) '' then Finished l [[LNumber 1]]
      else if chunk = '' print(2) '' then Finished l [[LNumber 2]]
      else if chunk = '' print(1) --<?lua '' then Finished l [[LNumber 1]]
      else if chunk = '' error("boom") '' then Raised l [] ''<string>:1: boom''
      else if chunk = ''\<newline>error("boom")\<newline>print(1)\<newline>''
        then Raised l [] ''<string>:2: boom''
      else Raised l [] ''<string>: syntax error'')\<close>

definition demo :: "(unit, lvalue, string) env" where
  "demo = \<lparr>NewState = (), DoString = demo_DoString, String = lvalue_String,
            Write = Buffer_Write\<rparr>"

text \<open>A writer whose other end is closed: every write fails and stores nothing.\<close>

definition Closed_Write :: "string \<Rightarrow> string \<Rightarrow> string \<times> string option" where
  "Closed_Write w p = (w, Some ''io: read/write on closed pipe'')"

definition demo_closed :: "(unit, lvalue, string) env" where
  "demo_closed = \<lparr>NewState = (), DoString = demo_DoString, String = lvalue_String,
                   Write = Closed_Write\<rparr>"

section \<open>Properties of the scanner and of the loop\<close>

subsection \<open>What the marker scanner computes\<close>

lemma isStart_loop_iff:
  "isStart_loop i start slice = (\<forall>k. i \<le> k \<and> k < 5 \<longrightarrow> startSeq ! k = slice ! (start + k))"
proof (induction i start slice rule: isStart_loop.induct)
  case (1 i start slice)
  show ?case
  proof (cases "i < 5")
    case False
    then show ?thesis by (subst isStart_loop.simps) auto
  next
    case True
    note lt = this
    show ?thesis
    proof (cases "startSeq ! i = slice ! (start + i)")
      case False
      with lt show ?thesis by (subst isStart_loop.simps) auto
    next
      case True
      have "isStart_loop i start slice = isStart_loop (i + 1) start slice"
        using lt True by (subst isStart_loop.simps) simp
      also have "\<dots> = (\<forall>k. i + 1 \<le> k \<and> k < 5 \<longrightarrow> startSeq ! k = slice ! (start + k))"
        using "1.IH" lt True by simp
      also have "\<dots> = (\<forall>k. i \<le> k \<and> k < 5 \<longrightarrow> startSeq ! k = slice ! (start + k))"
        using True by (metis Suc_eq_plus1 Suc_leI le_neq_implies_less le_trans nat_le_linear not_less_eq_eq)
      finally show ?thesis .
    qed
  qed
qed

lemma isStart_iff:
  "isStart i s \<longleftrightarrow> i + 5 < length s \<and> take 5 (drop i s) = startSeq"
proof (cases "i + 5 < length s")
  case False
  then show ?thesis by (simp add: isStart_def)
next
  case True
  have len: "length (take 5 (drop i s)) = 5" using True by simp
  have "isStart i s \<longleftrightarrow> (\<forall>k<5. startSeq ! k = s ! (i + k))"
    using True by (simp add: isStart_def isStart_loop_iff)
  also have "\<dots> \<longleftrightarrow> take 5 (drop i s) = startSeq"
    using True len by (auto simp: list_eq_iff_nth_eq startSeq_def)
  finally show ?thesis using True by simp
qed

lemma isEnd_iff:
  "isEnd i s \<longleftrightarrow> i + 1 < length s \<and> take 2 (drop i s) = endSeq"
proof (cases "i + 1 < length s")
  case False
  then show ?thesis by (simp add: isEnd_def)
next
  case True
  have len: "length (take 2 (drop i s)) = 2" using True by simp
  have "take 2 (drop i s) = endSeq \<longleftrightarrow> s ! i = CHR ''?'' \<and> s ! (i + 1) = CHR ''>''"
    using True len by (auto simp: list_eq_iff_nth_eq endSeq_def less_Suc_eq numeral_2_eq_2)
  then show ?thesis using True by (auto simp: isEnd_def)
qed

text \<open>An open marker on which the document ends is not recognised.\<close>

lemma isStart_at_end: "\<not> isStart (length pre) (pre @ startSeq)"
  by (simp add: isStart_iff startSeq_def)

subsection \<open>Moving the loop along the document\<close>

lemma isStart_Cons: "isStart (Suc i) (c # cs) = isStart i cs"
  by (simp add: isStart_iff add.commute)

lemma isEnd_Cons: "isEnd (Suc i) (c # cs) = isEnd i cs"
  by (simp add: isEnd_iff)

lemma loop_Cons: "loop P (c # cs) (Suc i) st = loop P cs i st"
proof (induction "length cs - i" arbitrary: i st rule: less_induct)
  case less
  have IH: "\<And>j st'. i < j \<Longrightarrow> i < length cs \<Longrightarrow> loop P (c # cs) (Suc j) st' = loop P cs j st'"
    by (rule less) arith
  have IH5: "\<And>st'. i < length cs \<Longrightarrow> loop P (c # cs) (6 + i) st' = loop P cs (i + 5) st'"
    using IH [of "i + 5"] by (simp add: add.commute)
  show ?case
  proof (cases "i < length cs")
    case False
    then show ?thesis
      by (simp only: loop.simps[of P "c # cs" "Suc i" st] loop.simps[of P cs i st]) simp
  next
    case True
    show ?thesis
      apply (simp only: loop.simps[of P "c # cs" "Suc i" st] loop.simps[of P cs i st])
      using True
      apply (simp add: isStart_Cons isEnd_Cons Let_def IH IH5 split: outcome.splits prod.splits option.splits)
      done
  qed
qed

lemma newlines_simps [simp]:
  "newlines [] = 0"
  "newlines (c # cs) = (if c = CHR 0x0A then Suc (newlines cs) else newlines cs)"
  "newlines (xs @ ys) = newlines xs + newlines ys"
  by (simp_all add: newlines_def)

lemma length_startSeq: "length startSeq = 5"
  by (simp add: startSeq_def)

lemma length_endSeq: "length endSeq = 2"
  by (simp add: endSeq_def)

lemma isStart_nth: "isStart i src \<Longrightarrow> src ! i = CHR ''<''"
  by (simp add: isStart_def isStart_loop_iff startSeq_def split: if_splits)
     (metis nth_Cons_0 Nat.add_0_right le0 zero_less_numeral)

lemma isEnd_nth: "isEnd i src \<Longrightarrow> src ! i = CHR ''?''"
  by (simp add: isEnd_def split: if_splits)

lemma isStart_less: "isStart i src \<Longrightarrow> i < length src"
  by (simp add: isStart_def split: if_splits)

lemma isEnd_less: "isEnd i src \<Longrightarrow> i < length src"
  by (simp add: isEnd_def split: if_splits)

subsection \<open>One iteration of the loop\<close>

lemma loop_eof: "length src \<le> i \<Longrightarrow> loop P src i st = atEOF P st"
  by (subst loop.simps) simp

lemma loop_lit_step:
  assumes "i < length src" "\<not> inCode st" "\<not> isStart i src"
    and "Write P (out st) [src ! i] = (w, None)"
  shows "loop P src i st =
     loop P src (Suc i) (st\<lparr>line := line st + newlines [src ! i], out := w\<rparr>)"
  using assms by (cases "src ! i = CHR 0x0A"; subst loop.simps) (simp_all add: Let_def)

lemma loop_lit_fail:
  assumes "i < length src" "\<not> inCode st" "\<not> isStart i src"
    and "Write P (out st) [src ! i] = (w, Some e)"
  shows "loop P src i st =
     Some (Some (WriteError e), st\<lparr>line := line st + newlines [src ! i], out := w\<rparr>)"
  using assms by (cases "src ! i = CHR 0x0A"; subst loop.simps) (simp_all add: Let_def)

lemma loop_code_step:
  assumes "i < length src" "inCode st" "\<not> isEnd i src"
  shows "loop P src i st =
     loop P src (Suc i) (st\<lparr>line := line st + newlines [src ! i], luaIn := luaIn st @ [src ! i]\<rparr>)"
  using assms by (cases "src ! i = CHR 0x0A"; subst loop.simps) (simp_all add: Let_def)

lemma loop_open_step:
  assumes "\<not> inCode st" "isStart i src"
  shows "loop P src i st = loop P src (i + 5) (st\<lparr>inCode := True\<rparr>)"
  using assms isStart_nth [OF assms(2)] isStart_less [OF assms(2)]
  by (subst loop.simps) (simp add: Let_def)

lemma loop_close_step:
  assumes "inCode st" "isEnd i src"
  shows "loop P src i st =
     (case DoString P (L st) (luaIn st) of
        Hangs \<Rightarrow> None
      | Raised l calls msg \<Rightarrow>
          Some (Some (LuaError (line st) msg),
                st\<lparr>L := l, luaOut := run_prints (String P) calls (luaOut st),
                   dispatched := dispatched st @ [(luaIn st, luaOut st)]\<rparr>)
      | Finished l calls \<Rightarrow>
          loop P src (i + 2)
            (st\<lparr>out := fst (Write P (out st) (run_prints (String P) calls (luaOut st))),
               L := l, luaOut := [], luaIn := [], inCode := False,
               dispatched := dispatched st @ [(luaIn st, luaOut st)]\<rparr>))"
  using assms isEnd_nth [OF assms(2)] isEnd_less [OF assms(2)]
  by (subst loop.simps) (simp add: Let_def split: outcome.splits)

subsection \<open>Runs\<close>

lemma loop_append: "loop P (pre @ rest) (length pre + i) st = loop P rest i st"
  by (induction pre) (simp_all add: loop_Cons)

lemma loop_append0: "loop P (pre @ rest) (length pre) st = loop P rest 0 st"
  using loop_append [of P pre rest 0 st] by simp

lemma lit_run:
  assumes "Write P = Buffer_Write" "\<not> inCode st" "\<forall>j<length l. \<not> isStart j (l @ rest)"
  shows "loop P (l @ rest) 0 st = loop P rest 0 (st\<lparr>line := line st + newlines l, out := out st @ l\<rparr>)"
  using assms
proof (induction l arbitrary: st)
  case Nil
  then show ?case by simp
next
  case (Cons c l)
  let ?st2 = "st\<lparr>line := line st + newlines [c], out := out st @ [c]\<rparr>"
  have ns: "\<not> isStart 0 ((c # l) @ rest)" using Cons.prems(3) by auto
  have nxt: "\<forall>j<length l. \<not> isStart j (l @ rest)"
    using Cons.prems(3) isStart_Cons by fastforce
  have "loop P ((c # l) @ rest) 0 st = loop P ((c # l) @ rest) (Suc 0) ?st2"
    using Cons.prems(1,2) ns
    by (subst loop_lit_step [where w = "out st @ [c]"]) (simp_all add: Buffer_Write_def)
  also have "\<dots> = loop P (l @ rest) 0 ?st2" by (simp add: loop_Cons)
  also have "\<dots> = loop P rest 0 (?st2\<lparr>line := line ?st2 + newlines l, out := out ?st2 @ l\<rparr>)"
    using Cons.prems(1,2) nxt by (intro Cons.IH) auto
  also have "?st2\<lparr>line := line ?st2 + newlines l, out := out ?st2 @ l\<rparr>
      = st\<lparr>line := line st + newlines (c # l), out := out st @ c # l\<rparr>"
    by simp
  finally show ?case .
qed

lemma code_run:
  assumes "inCode st" "\<forall>j<length s. \<not> isEnd j (s @ rest)"
  shows "loop P (s @ rest) 0 st = loop P rest 0 (st\<lparr>line := line st + newlines s, luaIn := luaIn st @ s\<rparr>)"
  using assms
proof (induction s arbitrary: st)
  case Nil
  then show ?case by simp
next
  case (Cons c s)
  let ?st2 = "st\<lparr>line := line st + newlines [c], luaIn := luaIn st @ [c]\<rparr>"
  have ns: "\<not> isEnd 0 ((c # s) @ rest)" using Cons.prems(2) by auto
  have nxt: "\<forall>j<length s. \<not> isEnd j (s @ rest)"
    using Cons.prems(2) isEnd_Cons by fastforce
  have "loop P ((c # s) @ rest) 0 st = loop P ((c # s) @ rest) (Suc 0) ?st2"
    using Cons.prems(1) ns by (subst loop_code_step) simp_all
  also have "\<dots> = loop P (s @ rest) 0 ?st2" by (simp add: loop_Cons)
  also have "\<dots> = loop P rest 0 (?st2\<lparr>line := line ?st2 + newlines s, luaIn := luaIn ?st2 @ s\<rparr>)"
    using Cons.prems(1) nxt by (intro Cons.IH) auto
  also have "?st2\<lparr>line := line ?st2 + newlines s, luaIn := luaIn ?st2 @ s\<rparr>
      = st\<lparr>line := line st + newlines (c # s), luaIn := luaIn st @ c # s\<rparr>"
    by simp
  finally show ?case .
qed

lemma open_step:
  assumes "\<not> inCode st" "rest \<noteq> []"
  shows "loop P (startSeq @ rest) 0 st = loop P rest 0 (st\<lparr>inCode := True\<rparr>)"
proof -
  have s: "isStart 0 (startSeq @ rest)"
    using assms(2) by (simp add: isStart_iff length_startSeq)
  have "loop P (startSeq @ rest) 0 st = loop P (startSeq @ rest) (length startSeq) (st\<lparr>inCode := True\<rparr>)"
    using assms(1) s by (subst loop_open_step) (simp_all add: length_startSeq)
  then show ?thesis by (simp only: loop_append0)
qed

lemma close_step:
  assumes "inCode st"
  shows "loop P (endSeq @ rest) 0 st =
     (case DoString P (L st) (luaIn st) of
        Hangs \<Rightarrow> None
      | Raised l calls msg \<Rightarrow>
          Some (Some (LuaError (line st) msg),
                st\<lparr>L := l, luaOut := run_prints (String P) calls (luaOut st),
                   dispatched := dispatched st @ [(luaIn st, luaOut st)]\<rparr>)
      | Finished l calls \<Rightarrow>
          loop P rest 0
            (st\<lparr>out := fst (Write P (out st) (run_prints (String P) calls (luaOut st))),
               L := l, luaOut := [], luaIn := [], inCode := False,
               dispatched := dispatched st @ [(luaIn st, luaOut st)]\<rparr>))"
proof -
  have e: "isEnd 0 (endSeq @ rest)" by (simp add: isEnd_iff length_endSeq)
  have a2: "loop P (endSeq @ rest) (0 + 2) st' = loop P rest 0 st'" for st'
    using loop_append0 [of P endSeq rest st'] by (simp only: length_endSeq add_0)
  show ?thesis
    using assms e by (subst loop_close_step) (simp_all only: a2)
qed

subsection \<open>Text without markers\<close>

lemma occurs_drop: "j \<le> length s \<Longrightarrow> prefix p (drop j s) \<Longrightarrow> occurs p s"
proof (induction s arbitrary: j)
  case Nil
  then show ?case by simp
next
  case (Cons c s)
  then show ?case by (cases j) auto
qed

lemma isStart_prefix: "isStart j s \<Longrightarrow> prefix startSeq (drop j s)"
  using take_is_prefix [of 5 "drop j s"] by (simp add: isStart_iff)

lemma isEnd_prefix: "isEnd j s \<Longrightarrow> prefix endSeq (drop j s)"
  using take_is_prefix [of 2 "drop j s"] by (simp add: isEnd_iff)

lemma isStart_occurs: "isStart j s \<Longrightarrow> occurs startSeq s"
  using occurs_drop [of j s startSeq] isStart_prefix [of j s] isStart_less [of j s] by simp

lemma isEnd_occurs: "isEnd j s \<Longrightarrow> occurs endSeq s"
  using occurs_drop [of j s endSeq] isEnd_prefix [of j s] isEnd_less [of j s] by simp

lemma startSeq_nth_neq: "0 < k \<Longrightarrow> k < 5 \<Longrightarrow> startSeq ! k \<noteq> CHR ''<''"
proof -
  assume "0 < k" "k < 5"
  then have "k = 1 \<or> k = 2 \<or> k = 3 \<or> k = 4" by arith
  then show ?thesis by (auto simp: startSeq_def)
qed

lemma prefix_nth: "prefix p s \<Longrightarrow> k < length p \<Longrightarrow> s ! k = p ! k"
  by (auto simp: prefix_def nth_append)

lemma prefix_append_long:
  assumes "prefix p (l @ r)" "length p \<le> length l"
  shows "prefix p l"
proof -
  obtain zs where "l @ r = p @ zs" using assms(1) by (auto simp: prefix_def)
  then have "take (length p) (l @ r) = p" by simp
  then have "take (length p) l = p" using assms(2) by simp
  then show ?thesis using take_is_prefix [of "length p" l] by simp
qed

lemma startSeq_straddle:
  assumes "prefix startSeq (l @ startSeq @ rest)" "l \<noteq> []"
  shows "prefix startSeq l"
proof (cases "length l < 5")
  case True
  have "(l @ startSeq @ rest) ! length l = startSeq ! length l"
    using assms(1) True by (intro prefix_nth) (simp_all add: length_startSeq)
  moreover have "(l @ startSeq @ rest) ! length l = CHR ''<''"
    by (simp add: nth_append startSeq_def)
  ultimately show ?thesis
    using startSeq_nth_neq [of "length l"] True assms(2) by simp
next
  case False
  then have "length startSeq \<le> length l" by (simp add: length_startSeq)
  with assms(1) show ?thesis
    by (rule prefix_append_long)
qed

lemma endSeq_straddle:
  assumes "prefix endSeq (s @ endSeq @ rest)" "s \<noteq> []"
  shows "prefix endSeq s"
proof (cases "length s < 2")
  case True
  then have len: "length s = 1" using assms(2) by (cases s) simp_all
  have "(s @ endSeq @ rest) ! length s = endSeq ! length s"
    using assms(1) len by (intro prefix_nth) (simp_all add: length_endSeq)
  moreover have "(s @ endSeq @ rest) ! length s = CHR ''?''"
    by (simp add: nth_append endSeq_def)
  ultimately show ?thesis using len by (simp add: endSeq_def)
next
  case False
  then have "length endSeq \<le> length s" by (simp add: length_endSeq)
  with assms(1) show ?thesis
    by (rule prefix_append_long)
qed

lemma plain_no_start:
  assumes "\<not> occurs startSeq l" "j < length l"
  shows "\<not> isStart j (l @ startSeq @ rest)"
proof
  assume "isStart j (l @ startSeq @ rest)"
  then have "prefix startSeq (drop j (l @ startSeq @ rest))"
    by (rule isStart_prefix)
  then have "prefix startSeq (drop j l @ startSeq @ rest)"
    using assms(2) by simp
  then have "prefix startSeq (drop j l)"
    by (rule startSeq_straddle) (use assms(2) in simp)
  then have "occurs startSeq l"
    using assms(2) by (intro occurs_drop [of j]) simp_all
  with assms(1) show False by simp
qed

lemma closeless_no_end:
  assumes "\<not> occurs endSeq s" "j < length s"
  shows "\<not> isEnd j (s @ endSeq @ rest)"
proof
  assume "isEnd j (s @ endSeq @ rest)"
  then have "prefix endSeq (drop j (s @ endSeq @ rest))"
    by (rule isEnd_prefix)
  then have "prefix endSeq (drop j s @ endSeq @ rest)"
    using assms(2) by simp
  then have "prefix endSeq (drop j s)"
    by (rule endSeq_straddle) (use assms(2) in simp)
  then have "occurs endSeq s"
    using assms(2) by (intro occurs_drop [of j]) simp_all
  with assms(1) show False by simp
qed

subsection \<open>Regions\<close>

lemma region_run:
  assumes W: "Write P = Buffer_Write"
    and st: "\<not> inCode st" "luaIn st = []"
    and l: "\<not> occurs startSeq l" and s: "\<not> occurs endSeq s"
  shows "loop P (l @ startSeq @ s @ endSeq @ rest) 0 st =
     loop P (endSeq @ rest) 0
       (st\<lparr>line := line st + newlines (l @ s), out := out st @ l, luaIn := s, inCode := True\<rparr>)"
proof -
  let ?st1 = "st\<lparr>line := line st + newlines l, out := out st @ l\<rparr>"
  let ?st2 = "?st1\<lparr>inCode := True\<rparr>"
  let ?st3 = "?st2\<lparr>line := line ?st2 + newlines s, luaIn := luaIn ?st2 @ s\<rparr>"
  have "loop P (l @ startSeq @ s @ endSeq @ rest) 0 st = loop P (startSeq @ s @ endSeq @ rest) 0 ?st1"
    using W st(1) l by (intro lit_run) (simp_all add: plain_no_start)
  also have "\<dots> = loop P (s @ endSeq @ rest) 0 ?st2"
    using st(1) by (intro open_step) (simp_all add: endSeq_def)
  also have "\<dots> = loop P (endSeq @ rest) 0 ?st3"
    using s by (intro code_run) (simp_all add: closeless_no_end)
  also have "?st3 = st\<lparr>line := line st + newlines (l @ s), out := out st @ l, luaIn := s, inCode := True\<rparr>"
    using st(2) by simp
  finally show ?thesis .
qed


lemma body_Cons: "body ((lit, s) # segs) = lit @ startSeq @ s @ endSeq @ body segs"
  by (simp add: body_def)

lemma body_Nil: "body [] = []"
  by (simp add: body_def)

lemma segs_run:
  assumes W: "Write P = Buffer_Write"
    and pre: "\<not> inCode st" "luaIn st = []" "luaOut st = []"
      "well_formed segs" "render P (L st) segs = Some (l', res)"
  shows "loop P (body segs @ rest) 0 st =
     loop P rest 0
       (st\<lparr>line := line st + newlines (body segs), out := out st @ res, L := l',
          luaOut := [], luaIn := [], inCode := False,
          dispatched := dispatched st @ map (\<lambda>(lit, s). (s, [])) segs\<rparr>)"
  using pre
proof (induction segs arbitrary: st res)
  case Nil
  then show ?case by (cases st) (auto simp add: body_Nil)
next
  case (Cons seg segs)
  obtain lit s where seg: "seg = (lit, s)" by (cases seg)
  from Cons.prems(5) seg obtain l1 calls res1 where
    run: "DoString P (L st) s = Finished l1 calls" and
    rest: "render P l1 segs = Some (l', res1)" and
    res: "res = lit @ printed P calls @ res1"
    by (auto split: outcome.splits option.splits)
  from Cons.prems(4) seg have wf: "\<not> occurs startSeq lit" "\<not> occurs endSeq s" "well_formed segs"
    by (simp_all add: well_formed_def)
  let ?stA = "st\<lparr>line := line st + newlines (lit @ s), out := out st @ lit, luaIn := s, inCode := True\<rparr>"
  let ?stB = "st\<lparr>line := line st + newlines (lit @ s), out := out st @ lit @ printed P calls,
                 L := l1, luaOut := [], luaIn := [], inCode := False,
                 dispatched := dispatched st @ [(s, [])]\<rparr>"
  have "loop P (body (seg # segs) @ rest) 0 st = loop P (lit @ startSeq @ s @ endSeq @ body segs @ rest) 0 st"
    by (simp add: seg body_Cons)
  also have "\<dots> = loop P (endSeq @ body segs @ rest) 0 ?stA"
    using W Cons.prems(1,2) wf(1,2) by (rule region_run)
  also have "\<dots> = loop P (body segs @ rest) 0 ?stB"
    using run Cons.prems(3) W
    by (subst close_step) (simp_all add: Buffer_Write_def printed_def)
  also have "\<dots> = loop P rest 0
       (?stB\<lparr>line := line ?stB + newlines (body segs), out := out ?stB @ res1, L := l',
          luaOut := [], luaIn := [], inCode := False,
          dispatched := dispatched ?stB @ map (\<lambda>(lit, s). (s, [])) segs\<rparr>)"
    using wf(3) rest by (intro Cons.IH) simp_all
  also have "?stB\<lparr>line := line ?stB + newlines (body segs), out := out ?stB @ res1, L := l',
          luaOut := [], luaIn := [], inCode := False,
          dispatched := dispatched ?stB @ map (\<lambda>(lit, s). (s, [])) segs\<rparr>
     = st\<lparr>line := line st + newlines (body (seg # segs)), out := out st @ res, L := l',
          luaOut := [], luaIn := [], inCode := False,
          dispatched := dispatched st @ map (\<lambda>(lit, s). (s, [])) (seg # segs)\<rparr>"
    by (simp add: seg res body_Cons startSeq_def endSeq_def)
  finally show ?case .
qed

subsection \<open>Whole documents\<close>

lemma isStart_opens: "isStart j t \<Longrightarrow> opens t"
proof (induction t arbitrary: j)
  case Nil
  then show ?case by (simp add: isStart_def)
next
  case (Cons c cs)
  show ?case
  proof (cases j)
    case 0
    with Cons.prems isStart_prefix [of 0 "c # cs"] show ?thesis
      by (simp add: isStart_iff)
  next
    case (Suc j')
    with Cons show ?thesis by (simp add: isStart_Cons)
  qed
qed

lemma occurs_opens: "opens t \<Longrightarrow> occurs startSeq t"
  by (induction t) auto

lemma init_state:
  "Interpret P w src = loop P src 0 \<lparr>out = w, L = NewState P, luaOut = [], luaIn = [],
      inCode = False, line = 1, dispatched = []\<rparr>"
  by (simp add: Interpret_def)

lemma tail_run:
  assumes "Write P = Buffer_Write" "\<not> inCode st" "\<not> opens t"
  shows "loop P t 0 st = Some (None, st\<lparr>line := line st + newlines t, out := out st @ t\<rparr>)"
proof -
  have "loop P (t @ []) 0 st = loop P [] 0 (st\<lparr>line := line st + newlines t, out := out st @ t\<rparr>)"
    using assms isStart_opens by (intro lit_run) auto
  then show ?thesis using assms(2) by (simp add: loop_eof atEOF_def)
qed

lemma Interpret_closed:
  assumes "Write P = Buffer_Write" "well_formed segs" "\<not> opens t"
    and "render P (NewState P) segs = Some (l', res)"
  shows "Interpret P w (body segs @ t) =
     Some (None, \<lparr>out = w @ res @ t, L = l', luaOut = [], luaIn = [], inCode = False,
                  line = 1 + newlines (body segs @ t),
                  dispatched = map (\<lambda>(lit, s). (s, [])) segs\<rparr>)"
proof -
  let ?st0 = "\<lparr>out = w, L = NewState P, luaOut = [], luaIn = [],
      inCode = False, line = 1, dispatched = []\<rparr>"
  let ?st1 = "?st0\<lparr>line := line ?st0 + newlines (body segs), out := out ?st0 @ res, L := l',
          luaOut := [], luaIn := [], inCode := False,
          dispatched := dispatched ?st0 @ map (\<lambda>(lit, s). (s, [])) segs\<rparr>"
  have "Interpret P w (body segs @ t) = loop P (body segs @ t) 0 ?st0"
    by (rule init_state)
  also have "\<dots> = loop P t 0 ?st1"
    using assms by (intro segs_run) simp_all
  also have "\<dots> = Some (None, ?st1\<lparr>line := line ?st1 + newlines t, out := out ?st1 @ t\<rparr>)"
    using assms(1,3) by (intro tail_run) simp_all
  finally show ?thesis by simp
qed

lemma Interpret_region:
  assumes "Write P = Buffer_Write" "well_formed segs"
    and "\<not> occurs startSeq lit" "\<not> occurs endSeq s"
    and "render P (NewState P) segs = Some (l1, res)"
  shows "Interpret P w (body segs @ lit @ startSeq @ s @ endSeq @ rest) =
     (case DoString P l1 s of
        Hangs \<Rightarrow> None
      | Raised l2 calls msg \<Rightarrow>
          Some (Some (LuaError (1 + newlines (body segs @ lit @ s)) msg),
                \<lparr>out = w @ res @ lit, L = l2, luaOut = printed P calls, luaIn = s,
                 inCode = True, line = 1 + newlines (body segs @ lit @ s),
                 dispatched = map (\<lambda>(lit, s). (s, [])) segs @ [(s, [])]\<rparr>)
      | Finished l2 calls \<Rightarrow>
          loop P rest 0
            \<lparr>out = w @ res @ lit @ printed P calls, L = l2, luaOut = [], luaIn = [],
             inCode = False, line = 1 + newlines (body segs @ lit @ s),
             dispatched = map (\<lambda>(lit, s). (s, [])) segs @ [(s, [])]\<rparr>)"
proof -
  let ?st0 = "\<lparr>out = w, L = NewState P, luaOut = [], luaIn = [],
      inCode = False, line = 1, dispatched = []\<rparr>"
  let ?st1 = "?st0\<lparr>line := line ?st0 + newlines (body segs), out := out ?st0 @ res, L := l1,
          luaOut := [], luaIn := [], inCode := False,
          dispatched := dispatched ?st0 @ map (\<lambda>(lit, s). (s, [])) segs\<rparr>"
  let ?st2 = "?st1\<lparr>line := line ?st1 + newlines (lit @ s), out := out ?st1 @ lit, luaIn := s, inCode := True\<rparr>"
  have "Interpret P w (body segs @ lit @ startSeq @ s @ endSeq @ rest)
      = loop P (body segs @ lit @ startSeq @ s @ endSeq @ rest) 0 ?st0"
    by (rule init_state)
  also have "\<dots> = loop P (lit @ startSeq @ s @ endSeq @ rest) 0 ?st1"
    using assms by (intro segs_run) simp_all
  also have "\<dots> = loop P (endSeq @ rest) 0 ?st2"
    using assms(1,3,4) by (intro region_run) simp_all
  finally show ?thesis
    using assms(1)
    by (simp add: close_step printed_def Buffer_Write_def split: outcome.splits)
qed

lemma Interpret_open_tail:
  assumes "Write P = Buffer_Write" "well_formed segs"
    and "\<not> occurs startSeq lit" "b \<noteq> []" "\<not> occurs endSeq b"
    and "render P (NewState P) segs = Some (l1, res)"
  shows "Interpret P w (body segs @ lit @ startSeq @ b) =
     (case DoString P l1 b of
        Hangs \<Rightarrow> None
      | Raised l2 calls msg \<Rightarrow>
          Some (Some (LuaError (1 + newlines (body segs @ lit @ b)) msg),
                \<lparr>out = w @ res @ lit, L = l2, luaOut = printed P calls, luaIn = b,
                 inCode = True, line = 1 + newlines (body segs @ lit @ b),
                 dispatched = map (\<lambda>(lit, s). (s, [])) segs @ [(b, [])]\<rparr>)
      | Finished l2 calls \<Rightarrow>
          Some (None,
            \<lparr>out = w @ res @ lit @ printed P calls, L = l2, luaOut = printed P calls, luaIn = b,
             inCode = True, line = 1 + newlines (body segs @ lit @ b),
             dispatched = map (\<lambda>(lit, s). (s, [])) segs @ [(b, [])]\<rparr>))"
proof -
  let ?st0 = "\<lparr>out = w, L = NewState P, luaOut = [], luaIn = [],
      inCode = False, line = 1, dispatched = []\<rparr>"
  let ?st1 = "?st0\<lparr>line := line ?st0 + newlines (body segs), out := out ?st0 @ res, L := l1,
          luaOut := [], luaIn := [], inCode := False,
          dispatched := dispatched ?st0 @ map (\<lambda>(lit, s). (s, [])) segs\<rparr>"
  let ?st2 = "?st1\<lparr>line := line ?st1 + newlines lit, out := out ?st1 @ lit\<rparr>"
  let ?st3 = "?st2\<lparr>inCode := True\<rparr>"
  let ?st4 = "?st3\<lparr>line := line ?st3 + newlines b, luaIn := luaIn ?st3 @ b\<rparr>"
  have "Interpret P w (body segs @ lit @ startSeq @ b)
      = loop P (body segs @ lit @ startSeq @ b) 0 ?st0"
    by (rule init_state)
  also have "\<dots> = loop P (lit @ startSeq @ b) 0 ?st1"
    using assms by (intro segs_run) simp_all
  also have "\<dots> = loop P (startSeq @ b) 0 ?st2"
    using assms(1,3) plain_no_start [of lit _ b] by (intro lit_run) simp_all
  also have "\<dots> = loop P b 0 ?st3"
    using assms(4) by (intro open_step) simp_all
  also have "\<dots> = loop P (b @ []) 0 ?st3" by simp
  also have "\<dots> = loop P [] 0 ?st4"
    using assms(5) isEnd_occurs by (intro code_run) auto
  finally show ?thesis
    using assms(1,4)
    by (simp add: loop_eof atEOF_def printed_def Buffer_Write_def Let_def split: outcome.splits)
qed

subsection \<open>The print binding and the line counter\<close>

lemma print_loop_eq:
  "0 < i \<Longrightarrow> print_loop S args i buf = buf @ spaced (map S (drop (i - 1) args))"
proof (induction S args i buf rule: print_loop.induct)
  case (1 S args i buf)
  show ?case
  proof (cases "i \<le> length args")
    case False
    then show ?thesis by (subst print_loop.simps) simp
  next
    case True
    with "1.prems" obtain x rest where d: "drop (i - 1) args = x # rest" and x: "x = args ! (i - 1)"
      and r: "rest = drop i args"
      by (metis Cons_nth_drop_Suc Suc_pred' less_eq_Suc_le)
    show ?thesis
    proof (cases "i = length args")
      case True
      then have "print_loop S args i buf = print_loop S args (i + 1) (buf @ S (args ! (i - 1)))"
        by (subst print_loop.simps) (simp add: Let_def)
      also have "\<dots> = buf @ S (args ! (i - 1))"
        using True by (subst print_loop.simps) simp
      finally show ?thesis using d x r True by simp
    next
      case False
      with \<open>i \<le> length args\<close> have lt: "i < length args" by simp
      then obtain y rest' where r': "drop i args = y # rest'"
        by (metis Cons_nth_drop_Suc)
      have "print_loop S args i buf = print_loop S args (i + 1) (buf @ S (args ! (i - 1)) @ '' '')"
        using lt by (subst print_loop.simps) (simp add: Let_def)
      also have "\<dots> = (buf @ S (args ! (i - 1)) @ '' '') @ spaced (map S (drop i args))"
        using "1.IH" [OF \<open>i \<le> length args\<close> refl refl] lt by simp
      finally show ?thesis using d x r by (simp add: r')
    qed
  qed
qed

lemma print_eq: "print S args buf = (buf @ spaced (map S args) @ [CHR 0x0A], 0)"
  by (simp add: print_def print_loop_eq)

lemma run_prints_eq:
  "run_prints S calls buf = buf @ concat (map (\<lambda>args. spaced (map S args) @ [CHR 0x0A]) calls)"
  unfolding run_prints_def
  by (induction calls arbitrary: buf) (simp_all add: print_eq)

lemma isEnd_drop: "isEnd i src \<Longrightarrow> drop i src = endSeq @ drop (i + 2) src"
  by (metis isEnd_iff append_take_drop_id drop_drop add.commute)

lemma isStart_drop: "isStart i src \<Longrightarrow> drop i src = startSeq @ drop (i + 5) src"
  by (metis isStart_iff append_take_drop_id drop_drop add.commute)

lemma newlines_startSeq: "newlines startSeq = 0" by (simp add: startSeq_def)
lemma newlines_endSeq: "newlines endSeq = 0" by (simp add: endSeq_def)

lemma loop_line:
  "loop P src i st = Some (None, st') \<Longrightarrow> line st' = line st + newlines (drop i src)"
proof (induction "length src - i" arbitrary: i st rule: less_induct)
  case less
  show ?case
  proof (cases "i < length src")
    case False
    with less.prems show ?thesis
      by (auto simp: loop_eof atEOF_def Let_def split: if_splits outcome.splits)
  next
    case True
    note lt = this
    have dr: "drop i src = src ! i # drop (Suc i) src"
      using lt by (simp add: Cons_nth_drop_Suc)
    show ?thesis
    proof (cases "inCode st")
      case True
      note ic = this
      show ?thesis
      proof (cases "isEnd i src")
        case True
        with ic less.prems obtain l calls st2 where
          "loop P src (i + 2) st2 = Some (None, st')" "line st2 = line st"
          by (auto simp: loop_close_step split: outcome.splits)
        moreover have "length src - (i + 2) < length src - i" using lt by arith
        ultimately have "line st' = line st + newlines (drop (i + 2) src)"
          using less.hyps by fastforce
        then show ?thesis using isEnd_drop [OF True] by (simp add: newlines_endSeq)
      next
        case False
        with ic lt less.prems have
          "loop P src (Suc i) (st\<lparr>line := line st + newlines [src ! i], luaIn := luaIn st @ [src ! i]\<rparr>) = Some (None, st')"
          by (simp add: loop_code_step)
        moreover have "length src - Suc i < length src - i" using lt by arith
        ultimately have "line st' = line st + newlines [src ! i] + newlines (drop (Suc i) src)"
          using less.hyps by fastforce
        then show ?thesis using dr by simp
      qed
    next
      case False
      note nic = this
      show ?thesis
      proof (cases "isStart i src")
        case True
        with nic less.prems have "loop P src (i + 5) (st\<lparr>inCode := True\<rparr>) = Some (None, st')"
          by (simp add: loop_open_step)
        moreover have "length src - (i + 5) < length src - i" using lt by arith
        ultimately have "line st' = line st + newlines (drop (i + 5) src)"
          using less.hyps by fastforce
        then show ?thesis using isStart_drop [OF True] by (simp add: newlines_startSeq)
      next
        case False
        obtain w e where wr: "Write P (out st) [src ! i] = (w, e)" by fastforce
        show ?thesis
        proof (cases e)
          case None
          with wr nic lt False less.prems have
            "loop P src (Suc i) (st\<lparr>line := line st + newlines [src ! i], out := w\<rparr>) = Some (None, st')"
            by (simp add: loop_lit_step)
          moreover have "length src - Suc i < length src - i" using lt by arith
          ultimately have "line st' = line st + newlines [src ! i] + newlines (drop (Suc i) src)"
            using less.hyps by fastforce
          then show ?thesis using dr by simp
        next
          case (Some a)
          with wr nic lt False less.prems show ?thesis
            by (simp add: loop_lit_fail)
        qed
      qed
    qed
  qed
qed

lemma Interpret_line:
  "Interpret P w src = Some (None, st') \<Longrightarrow> line st' = 1 + newlines src"
  using loop_line [of P src 0 _ st'] by (simp add: Interpret_def)

subsection \<open>Every document is a list of regions and a tail\<close>

lemma occurs_Nil: "\<not> occurs startSeq []" "\<not> occurs endSeq []"
  by (simp_all add: startSeq_def endSeq_def)

lemma split_open:
  "opens d \<Longrightarrow> \<exists>lit r. d = lit @ startSeq @ r \<and> r \<noteq> [] \<and> \<not> occurs startSeq lit"
proof (induction d)
  case Nil
  then show ?case by simp
next
  case (Cons c cs)
  show ?case
  proof (cases "prefix startSeq (c # cs) \<and> length (c # cs) > 5")
    case True
    then obtain r where r: "c # cs = startSeq @ r" by (auto simp: prefix_def)
    with True have "r \<noteq> []" by (auto simp: length_startSeq)
    with r occurs_Nil(1) show ?thesis by (metis append_Nil)
  next
    case False
    with Cons.prems have "opens cs" by auto
    then obtain lit r where IH: "cs = lit @ startSeq @ r" "r \<noteq> []" "\<not> occurs startSeq lit"
      using Cons.IH by blast
    have "\<not> prefix startSeq (c # lit)"
    proof
      assume "prefix startSeq (c # lit)"
      then have "prefix startSeq (c # cs)"
        using IH(1) prefix_prefix [of startSeq "c # lit" "startSeq @ r"] by simp
      moreover have "length (c # cs) > 5" using IH(1,2) by (simp add: length_startSeq)
      ultimately show False using False by simp
    qed
    then have "\<not> occurs startSeq (c # lit)" using IH(3) by simp
    moreover have "c # cs = (c # lit) @ startSeq @ r" using IH(1) by simp
    ultimately show ?thesis using IH(2) by blast
  qed
qed

lemma split_close:
  "occurs endSeq r \<Longrightarrow> \<exists>s r'. r = s @ endSeq @ r' \<and> \<not> occurs endSeq s"
proof (induction r)
  case Nil
  then show ?case by (simp add: endSeq_def)
next
  case (Cons c cs)
  show ?case
  proof (cases "prefix endSeq (c # cs)")
    case True
    then obtain r' where "c # cs = endSeq @ r'" by (auto simp: prefix_def)
    with occurs_Nil(2) show ?thesis by (metis append_Nil)
  next
    case False
    with Cons.prems have "occurs endSeq cs" by simp
    then obtain s r' where IH: "cs = s @ endSeq @ r'" "\<not> occurs endSeq s"
      using Cons.IH by blast
    have "\<not> prefix endSeq (c # s)"
    proof
      assume "prefix endSeq (c # s)"
      then have "prefix endSeq (c # cs)"
        using IH(1) prefix_prefix [of endSeq "c # s" "endSeq @ r'"] by simp
      then show False using False by simp
    qed
    then have "\<not> occurs endSeq (c # s)" using IH(2) by simp
    moreover have "c # cs = (c # s) @ endSeq @ r'" using IH(1) by simp
    ultimately show ?thesis by blast
  qed
qed

lemma document_shape:
  "(\<exists>segs t. d = body segs @ t \<and> well_formed segs \<and> \<not> opens t) \<or>
   (\<exists>segs lit b. d = body segs @ lit @ startSeq @ b \<and> well_formed segs \<and> open_tail_ok lit b)"
proof (induction "length d" arbitrary: d rule: less_induct)
  case less
  show ?case
  proof (cases "opens d")
    case False
    have "d = body [] @ d" "well_formed []" by (simp_all add: body_Nil well_formed_def)
    with False show ?thesis by blast
  next
    case True
    then obtain lit r where o: "d = lit @ startSeq @ r" "r \<noteq> []" "\<not> occurs startSeq lit"
      using split_open by blast
    show ?thesis
    proof (cases "occurs endSeq r")
      case False
      have "d = body [] @ lit @ startSeq @ r" "well_formed []" "open_tail_ok lit r"
        using o False by (simp_all add: body_Nil well_formed_def open_tail_ok_def)
      then show ?thesis by blast
    next
      case True
      then obtain s r' where c: "r = s @ endSeq @ r'" "\<not> occurs endSeq s"
        using split_close by blast
      have d: "d = body [(lit, s)] @ r'" using o(1) c(1) by (simp add: body_def)
      have wf1: "well_formed [(lit, s)]" using o(3) c(2) by (simp add: well_formed_def)
      have "length r' < length d" using o(1) c(1) by (simp add: length_startSeq)
      from less [OF this] show ?thesis
      proof
        assume "\<exists>segs t. r' = body segs @ t \<and> well_formed segs \<and> \<not> opens t"
        then obtain segs t where "r' = body segs @ t" "well_formed segs" "\<not> opens t" by blast
        then have "d = body ((lit, s) # segs) @ t" "well_formed ((lit, s) # segs)"
          using d wf1 by (simp_all add: body_def well_formed_def)
        with \<open>\<not> opens t\<close> show ?thesis by blast
      next
        assume "\<exists>segs lit b. r' = body segs @ lit @ startSeq @ b \<and> well_formed segs \<and> open_tail_ok lit b"
        then obtain segs lit' b where "r' = body segs @ lit' @ startSeq @ b" "well_formed segs"
          "open_tail_ok lit' b" by blast
        then have "d = body ((lit, s) # segs) @ lit' @ startSeq @ b" "well_formed ((lit, s) # segs)"
          using d wf1 by (simp_all add: body_def well_formed_def)
        with \<open>open_tail_ok lit' b\<close> show ?thesis by blast
      qed
    qed
  qed
qed

lemma loop_pending:
  assumes "loop P src i st = Some (None, st')"
    and "inCode st \<and> luaIn st = [] \<longrightarrow> i < length src"
  shows "inCode st' \<longrightarrow> luaIn st' \<noteq> []"
  using assms
proof (induction "length src - i" arbitrary: i st rule: less_induct)
  case less
  show ?case
  proof (cases "i < length src")
    case False
    with less.prems show ?thesis
      by (auto simp: loop_eof atEOF_def Let_def split: if_splits outcome.splits)
  next
    case True
    note lt = this
    show ?thesis
    proof (cases "inCode st")
      case True
      note ic = this
      show ?thesis
      proof (cases "isEnd i src")
        case True
        with ic less.prems(1) obtain st2 where
          "loop P src (i + 2) st2 = Some (None, st')" "\<not> inCode st2"
          by (auto simp: loop_close_step split: outcome.splits)
        moreover have "length src - (i + 2) < length src - i" using lt by arith
        ultimately show ?thesis using less.hyps by blast
      next
        case False
        with ic lt less.prems(1) have
          "loop P src (Suc i) (st\<lparr>line := line st + newlines [src ! i], luaIn := luaIn st @ [src ! i]\<rparr>) = Some (None, st')"
          by (simp add: loop_code_step)
        moreover have "length src - Suc i < length src - i" using lt by arith
        ultimately show ?thesis using less.hyps by fastforce
      qed
    next
      case False
      note nic = this
      show ?thesis
      proof (cases "isStart i src")
        case True
        with nic less.prems(1) have "loop P src (i + 5) (st\<lparr>inCode := True\<rparr>) = Some (None, st')"
          by (simp add: loop_open_step)
        moreover have "length src - (i + 5) < length src - i" using lt by arith
        moreover have "i + 5 < length src" using True by (simp add: isStart_iff)
        ultimately show ?thesis using less.hyps by fastforce
      next
        case False
        obtain w e where wr: "Write P (out st) [src ! i] = (w, e)" by fastforce
        show ?thesis
        proof (cases e)
          case None
          with wr nic lt False less.prems(1) have
            "loop P src (Suc i) (st\<lparr>line := line st + newlines [src ! i], out := w\<rparr>) = Some (None, st')"
            by (simp add: loop_lit_step)
          moreover have "length src - Suc i < length src - i" using lt by arith
          ultimately show ?thesis using less.hyps nic by fastforce
        next
          case (Some a)
          with wr nic lt False less.prems(1) show ?thesis
            by (simp add: loop_lit_fail)
        qed
      qed
    qed
  qed
qed

lemma pending_nonempty_at_EOF:
  "Interpret P w src = Some (None, st') \<Longrightarrow> inCode st' \<Longrightarrow> luaIn st' \<noteq> []"
  using loop_pending [of P src 0 _ st'] by (simp add: Interpret_def)

section \<open>The claims\<close>

lemmas demo_simps = demo_def demo_closed_def demo_DoString_def Buffer_Write_def Closed_Write_def
  well_formed_def open_tail_ok_def body_def startSeq_def endSeq_def printed_def run_prints_def
  print_def print_loop.simps decimal.simps

lemmas run_simps = Interpret_def loop.simps atEOF_def isStart_def isEnd_def isStart_loop.simps

subsection \<open>C1: regions are replaced by their output\<close>

text \<open>
  Claim C1. For every input document, on success the destination holds the
  literal bytes of the document with every script region replaced by the output
  printed while that region ran, and \<^verbatim>\<open>Interpret\<close> returns \<^verbatim>\<open>nil\<close>.

  The destination is a \<^verbatim>\<open>bytes.Buffer\<close> holding \<open>w\<close> at the call. By lemma
  \<open>document_shape\<close> every document is either \<open>body segs @ t\<close>, regions followed by
  literal text, or \<open>body segs @ lit @ startSeq @ b\<close>, where the end of the document
  cuts the last region off; the theorem has a part for each shape. \<open>render\<close> says
  that every region of \<open>segs\<close> finishes and that \<open>res\<close> is their literal text with
  the output of each region in its place.
\<close>

theorem Interpret_replaces_regions:
  assumes "Write P = Buffer_Write" "well_formed segs"
    and "render P (NewState P) segs = Some (l1, res)"
  shows "(\<not> opens t \<longrightarrow>
            map_option (\<lambda>(e, st). (e, out st)) (Interpret P w (body segs @ t)) =
            Some (None, w @ res @ t)) \<and>
         (open_tail_ok lit b \<and> DoString P l1 b = Finished l2 calls \<longrightarrow>
            map_option (\<lambda>(e, st). (e, out st)) (Interpret P w (body segs @ lit @ startSeq @ b)) =
            Some (None, w @ res @ lit @ printed P calls))"
proof (intro conjI impI)
  assume "\<not> opens t"
  with assms show "map_option (\<lambda>(e, st). (e, out st)) (Interpret P w (body segs @ t)) =
      Some (None, w @ res @ t)"
    by (simp add: Interpret_closed)
next
  assume a: "open_tail_ok lit b \<and> DoString P l1 b = Finished l2 calls"
  then have "\<not> occurs startSeq lit" "b \<noteq> []" "\<not> occurs endSeq b"
    by (simp_all add: open_tail_ok_def)
  from Interpret_open_tail [OF assms(1,2) this assms(3), of w] a
  show "map_option (\<lambda>(e, st). (e, out st)) (Interpret P w (body segs @ lit @ startSeq @ b)) =
      Some (None, w @ res @ lit @ printed P calls)"
    by simp
qed

text \<open>
  The scenario of the specification, \<^verbatim>\<open>Hello <?lua print("World") ?>!\<close>, and the
  same document with the close marker and the rest missing.
\<close>

theorem Interpret_replaces_regions_witness:
  \<open>map_option (\<lambda>(e, st). (e, out st)) (Interpret demo [] ''Hello <?lua print("World") ?>!'')
     = Some (None, ''Hello World\<newline>!'') \<and>
   map_option (\<lambda>(e, st). (e, out st)) (Interpret demo [] ''Hello <?lua print("World") '')
     = Some (None, ''Hello World\<newline>'')\<close>
proof -
  have h1: "Write demo = Buffer_Write" by (simp add: demo_def)
  have g2: "well_formed []" by (simp add: demo_simps)
  have g3: "render demo (NewState demo) [] = Some ((), [])" by simp
  have k2: \<open>well_formed [(''Hello '', '' print("World") '')]\<close> by (simp add: demo_simps)
  have k3: \<open>render demo (NewState demo) [(''Hello '', '' print("World") '')]
      = Some ((), ''Hello World\<newline>'')\<close>
    by (simp add: demo_simps)
  have k4: "\<not> opens ''!''" by (simp add: startSeq_def)
  have g4: \<open>open_tail_ok ''Hello '' '' print("World") '' \<and>
      DoString demo () '' print("World") '' = Finished () [[LString ''World'']]\<close>
    by (simp add: demo_simps)
  show ?thesis
    using Interpret_replaces_regions [OF h1 k2 k3, of "''!''" "[]" "[]" "[]" "()" "[]"] k4
      Interpret_replaces_regions [OF h1 g2 g3, of "[]" "[]" "''Hello ''"
        \<open>'' print("World") ''\<close> "()" "[[LString ''World'']]"] g4
    by (simp add: demo_simps)
qed

subsection \<open>C2: a document without open marker is copied\<close>

text \<open>
  Claim C2. For every document that contains no occurrence of the open marker,
  \<^verbatim>\<open>Interpret\<close> returns \<^verbatim>\<open>nil\<close> and the bytes written to the destination are the
  document. The destination is a \<^verbatim>\<open>bytes.Buffer\<close> holding \<open>w\<close> at the call; the
  final state also shows that the interpreter was never called and that the line
  counter counted every line terminator.
\<close>

theorem Interpret_identity_without_marker:
  assumes "Write P = Buffer_Write" "\<not> occurs startSeq src"
  shows "Interpret P w src =
     Some (None, \<lparr>out = w @ src, L = NewState P, luaOut = [], luaIn = [], inCode = False,
                  line = 1 + newlines src, dispatched = []\<rparr>)"
proof -
  have "\<not> opens src" using assms(2) occurs_opens by blast
  then show ?thesis
    using assms(1) by (simp add: Interpret_def tail_run)
qed

theorem Interpret_identity_without_marker_witness:
  "\<not> occurs startSeq ''a <? b\<newline>c'' \<and>
   Interpret demo ''>'' ''a <? b\<newline>c'' =
     Some (None, \<lparr>out = ''>a <? b\<newline>c'', L = (), luaOut = [], luaIn = [], inCode = False,
                  line = 2, dispatched = []\<rparr>)"
proof -
  have h1: "Write demo = Buffer_Write" by (simp add: demo_def)
  have h2: "\<not> occurs startSeq ''a <? b\<newline>c''" by (simp add: startSeq_def)
  show ?thesis
    using h2 Interpret_identity_without_marker [OF h1 h2, of "''>''"] by (simp add: demo_def)
qed


subsection \<open>C3: a failing region aborts the interpretation\<close>

text \<open>
  Claim C3. For every document in which the execution of a script region fails,
  \<^verbatim>\<open>Interpret\<close> aborts at once and returns an error that carries a 1-based line
  number and the message of the interpreter, and the destination keeps what was
  written before the failing region.

  The regions \<open>segs\<close> in front finish, the region \<open>s\<close> after the literal text \<open>lit\<close>
  raises \<open>msg\<close>. The first part is the region closed by \<^verbatim>\<open>?>\<close>, with any text \<open>rest\<close>
  behind it; the second is the region cut off by the end of the document. In both
  the text of the error is \<^verbatim>\<open>Lua Error (Line n): msg\<close>, the buffer holds its old
  content, the rendering of the earlier regions and \<open>lit\<close>, and \<open>s\<close> is the last
  chunk that was dispatched.
\<close>

theorem failing_region_aborts:
  assumes "Write P = Buffer_Write" "well_formed segs"
    and "render P (NewState P) segs = Some (l1, res)"
    and "\<not> occurs startSeq lit" "\<not> occurs endSeq s"
    and "DoString P l1 s = Raised l2 calls msg"
  shows "map_option (\<lambda>(e, st). (map_option Error e, out st, dispatched st))
           (Interpret P w (body segs @ lit @ startSeq @ s @ endSeq @ rest)) =
         Some (Some (''Lua Error (Line '' @ decimal (1 + newlines (body segs @ lit @ s))
                       @ ''): '' @ msg),
               w @ res @ lit,
               map (\<lambda>(lit, s). (s, [])) segs @ [(s, [])]) \<and>
         (s \<noteq> [] \<longrightarrow>
          map_option (\<lambda>(e, st). (map_option Error e, out st, dispatched st))
           (Interpret P w (body segs @ lit @ startSeq @ s)) =
          Some (Some (''Lua Error (Line '' @ decimal (1 + newlines (body segs @ lit @ s))
                       @ ''): '' @ msg),
                w @ res @ lit,
                map (\<lambda>(lit, s). (s, [])) segs @ [(s, [])]))"
proof (intro conjI impI)
  show "map_option (\<lambda>(e, st). (map_option Error e, out st, dispatched st))
           (Interpret P w (body segs @ lit @ startSeq @ s @ endSeq @ rest)) =
         Some (Some (''Lua Error (Line '' @ decimal (1 + newlines (body segs @ lit @ s))
                       @ ''): '' @ msg),
               w @ res @ lit,
               map (\<lambda>(lit, s). (s, [])) segs @ [(s, [])])"
    using Interpret_region [OF assms(1,2,4,5,3), of w rest] assms(6) by simp
next
  assume "s \<noteq> []"
  from Interpret_open_tail [OF assms(1,2,4) this assms(5,3), of w] assms(6)
  show "map_option (\<lambda>(e, st). (map_option Error e, out st, dispatched st))
           (Interpret P w (body segs @ lit @ startSeq @ s)) =
          Some (Some (''Lua Error (Line '' @ decimal (1 + newlines (body segs @ lit @ s))
                       @ ''): '' @ msg),
                w @ res @ lit,
                map (\<lambda>(lit, s). (s, [])) segs @ [(s, [])])"
    by simp
qed

text \<open>
  The scenario of the specification, \<^verbatim>\<open><?lua error("boom") ?>\<close>: the message names
  line 1 and contains \<^verbatim>\<open>boom\<close>, the destination stays empty. The second document
  has a region that prints in front, and its failing region is not closed.
\<close>

theorem failing_region_aborts_witness:
  \<open>map_option (\<lambda>(e, st). (map_option Error e, out st, dispatched st))
      (Interpret demo [] ''<?lua error("boom") ?>'') =
    Some (Some ''Lua Error (Line 1): <string>:1: boom'', [], [('' error("boom") '', [])]) \<and>
   map_option (\<lambda>(e, st). (map_option Error e, out st, dispatched st))
      (Interpret demo [] ''<?lua print(1) ?>\<newline>-<?lua error("boom") '') =
    Some (Some ''Lua Error (Line 2): <string>:1: boom'', ''1\<newline>\<newline>-'',
          [('' print(1) '', []), ('' error("boom") '', [])])\<close>
proof -
  have h1: "Write demo = Buffer_Write" by (simp add: demo_def)
  have h2: "well_formed []" by (simp add: well_formed_def)
  have h3: "render demo (NewState demo) [] = Some ((), [])" by simp
  have h4: "\<not> occurs startSeq []" by (simp add: startSeq_def)
  have h5: \<open>\<not> occurs endSeq '' error("boom") ''\<close> by (simp add: endSeq_def)
  have h6: \<open>DoString demo () '' error("boom") '' = Raised () [] ''<string>:1: boom''\<close>
    by (simp add: demo_simps)
  have k2: "well_formed [([], '' print(1) '')]" by (simp add: demo_simps)
  have k3: "render demo (NewState demo) [([], '' print(1) '')] = Some ((), ''1\<newline>'')"
    by (simp add: demo_simps)
  have k4: "\<not> occurs startSeq ''\<newline>-''" by (simp add: startSeq_def)
  have k7: \<open>'' error("boom") '' \<noteq> []\<close> by simp
  show ?thesis
    using failing_region_aborts [OF h1 h2 h3 h4 h5 h6, of "[]" "[]"]
      failing_region_aborts [OF h1 k2 k3 k4 h5 h6, of "[]" "[]"] k7
    by (simp add: demo_simps)
qed

subsection \<open>C4: one dispatch per region, in document order\<close>

text \<open>
  Claim C4 says that a document with N script regions causes exactly N dispatches.
  The document below has two regions; the first one fails, \<^verbatim>\<open>Interpret\<close> returns at
  once (line 124), and the log of dispatches holds the first chunk only.
\<close>

theorem dispatch_count_counterexample:
  \<open>well_formed [([], '' error("boom") ''), (''-'', '' print(2) '')] \<and>
   body [([], '' error("boom") ''), (''-'', '' print(2) '')]
     = ''<?lua error("boom") ?>-<?lua print(2) ?>'' \<and>
   map_option (map fst \<circ> dispatched \<circ> snd)
     (Interpret demo [] ''<?lua error("boom") ?>-<?lua print(2) ?>'')
     = Some ['' error("boom") '']\<close>
  by (simp add: demo_simps run_simps)

text \<open>
  Claim C4, amended. For every document whose N script regions all execute
  without error, exactly N dispatches occur, in document order from left to
  right; every dispatch starts with an empty Script Output Buffer, the buffer
  being copied to the destination and reset after the dispatch of a closed
  region, so that the destination holds the literal text and the outputs of the
  regions in document order.

  Each entry of \<open>dispatched\<close> is a chunk with the content of \<^verbatim>\<open>luaOut\<close> at the moment
  it was dispatched. The first part is the document that ends in literal text, the
  second the document whose last region is cut off by the end of the document.
\<close>

theorem regions_dispatched_in_order:
  assumes "Write P = Buffer_Write" "well_formed segs"
    and "render P (NewState P) segs = Some (l1, res)"
  shows "(\<not> opens t \<longrightarrow>
            map_option (\<lambda>(e, st). (e, dispatched st, luaOut st, out st))
              (Interpret P w (body segs @ t)) =
            Some (None, map (\<lambda>(lit, s). (s, [])) segs, [], w @ res @ t)) \<and>
         (open_tail_ok lit b \<and> DoString P l1 b = Finished l2 calls \<longrightarrow>
            map_option (\<lambda>(e, st). (e, dispatched st, out st))
              (Interpret P w (body segs @ lit @ startSeq @ b)) =
            Some (None, map (\<lambda>(lit, s). (s, [])) segs @ [(b, [])],
                  w @ res @ lit @ printed P calls))"
proof (intro conjI impI)
  assume "\<not> opens t"
  with assms show "map_option (\<lambda>(e, st). (e, dispatched st, luaOut st, out st))
      (Interpret P w (body segs @ t)) =
      Some (None, map (\<lambda>(lit, s). (s, [])) segs, [], w @ res @ t)"
    by (simp add: Interpret_closed)
next
  assume a: "open_tail_ok lit b \<and> DoString P l1 b = Finished l2 calls"
  then have "\<not> occurs startSeq lit" "b \<noteq> []" "\<not> occurs endSeq b"
    by (simp_all add: open_tail_ok_def)
  from Interpret_open_tail [OF assms(1,2) this assms(3), of w] a
  show "map_option (\<lambda>(e, st). (e, dispatched st, out st))
      (Interpret P w (body segs @ lit @ startSeq @ b)) =
      Some (None, map (\<lambda>(lit, s). (s, [])) segs @ [(b, [])], w @ res @ lit @ printed P calls)"
    by simp
qed

text \<open>
  The scenario of the specification, \<^verbatim>\<open><?lua print(1) ?>-<?lua print(2) ?>\<close>, and the
  same document without its last close marker.
\<close>

theorem regions_dispatched_in_order_witness:
  \<open>map_option (\<lambda>(e, st). (e, dispatched st, luaOut st, out st))
      (Interpret demo [] ''<?lua print(1) ?>-<?lua print(2) ?>'') =
    Some (None, [('' print(1) '', []), ('' print(2) '', [])], [], ''1\<newline>-2\<newline>'') \<and>
   map_option (\<lambda>(e, st). (e, dispatched st, out st))
      (Interpret demo [] ''<?lua print(1) ?>-<?lua print(2) '') =
    Some (None, [('' print(1) '', []), ('' print(2) '', [])], ''1\<newline>-2\<newline>'')\<close>
proof -
  have h1: "Write demo = Buffer_Write" by (simp add: demo_def)
  have h2: \<open>well_formed [([], '' print(1) ''), (''-'', '' print(2) '')]\<close>
    by (simp add: demo_simps)
  have h3: \<open>render demo (NewState demo) [([], '' print(1) ''), (''-'', '' print(2) '')]
      = Some ((), ''1\<newline>-2\<newline>'')\<close>
    by (simp add: demo_simps)
  have h4: "\<not> opens []" by simp
  have k2: "well_formed [([], '' print(1) '')]" by (simp add: demo_simps)
  have k3: "render demo (NewState demo) [([], '' print(1) '')] = Some ((), ''1\<newline>'')"
    by (simp add: demo_simps)
  have k4: "open_tail_ok ''-'' '' print(2) '' \<and>
      DoString demo () '' print(2) '' = Finished () [[LNumber 2]]"
    by (simp add: demo_simps)
  show ?thesis
    using regions_dispatched_in_order [OF h1 h2 h3, of "[]" "[]" "[]" "[]" "()" "[]"] h4
      regions_dispatched_in_order [OF h1 k2 k3, of "[]" "[]" "''-''" "'' print(2) ''" "()"
        "[[LNumber 2]]"] k4
    by (simp add: demo_simps)
qed


subsection \<open>C5: the line counter and the line of an error\<close>

text \<open>
  Claim C5 says that the line reported for a failing script is the line of the
  failing token in the document. In the document below the call \<^verbatim>\<open>error("boom")\<close>
  starts at offset 6, on line 2, and the interpreter itself says \<^verbatim>\<open><string>:2\<close>;
  the close marker stands on line 4, and line 4 is what \<^verbatim>\<open>Interpret\<close> reports.
\<close>

theorem reported_line_counterexample:
  \<open>map_option fst (Interpret demo [] ''<?lua\<newline>error("boom")\<newline>print(1)\<newline>?>'')
     = Some (Some (LuaError 4 ''<string>:2: boom'')) \<and>
   take 5 (drop 6 ''<?lua\<newline>error("boom")\<newline>print(1)\<newline>?>'') = ''error'' \<and>
   line_of ''<?lua\<newline>error("boom")\<newline>print(1)\<newline>?>'' 6 = 2\<close>
  by (simp add: demo_simps run_simps line_of_def newlines_def)

text \<open>
  Claim C5, amended. The line counter increments exactly once for every
  line-terminator byte met during the scan, in literal text and in script text
  alike, and the line reported when a script fails is the value of the counter at
  the dispatch: the 1-based line, within the document, of the close marker that
  ends the failing region, or the last line of the document when the region is
  cut off by the end of the document.

  The first two parts are the reported line for a closed region and for a region
  that is cut off; offset \<open>length (body segs @ lit @ startSeq @ s)\<close> is where the
  region's script ends. The third part holds for every interpreter \<open>Q\<close>, every
  writer and every document \<open>src\<close>: when \<^verbatim>\<open>Interpret\<close> returns \<^verbatim>\<open>nil\<close>, the counter is
  one more than the number of line terminators of the document.
\<close>

theorem reported_line_is_counter_at_dispatch:
  assumes "Write P = Buffer_Write" "well_formed segs"
    and "render P (NewState P) segs = Some (l1, res)"
    and "\<not> occurs startSeq lit" "\<not> occurs endSeq s"
    and "DoString P l1 s = Raised l2 calls msg"
  shows "map_option fst (Interpret P w (body segs @ lit @ startSeq @ s @ endSeq @ rest)) =
           Some (Some (LuaError
             (line_of (body segs @ lit @ startSeq @ s @ endSeq @ rest)
                      (length (body segs @ lit @ startSeq @ s))) msg)) \<and>
         (s \<noteq> [] \<longrightarrow>
          map_option fst (Interpret P w (body segs @ lit @ startSeq @ s)) =
           Some (Some (LuaError
             (line_of (body segs @ lit @ startSeq @ s)
                      (length (body segs @ lit @ startSeq @ s))) msg))) \<and>
         (Interpret Q v src = Some (None, st') \<longrightarrow> line st' = 1 + newlines src)"
proof (intro conjI impI)
  show "map_option fst (Interpret P w (body segs @ lit @ startSeq @ s @ endSeq @ rest)) =
           Some (Some (LuaError
             (line_of (body segs @ lit @ startSeq @ s @ endSeq @ rest)
                      (length (body segs @ lit @ startSeq @ s))) msg))"
    using Interpret_region [OF assms(1,2,4,5,3), of w rest] assms(6)
    by (simp add: line_of_def newlines_startSeq)
next
  assume "s \<noteq> []"
  from Interpret_open_tail [OF assms(1,2,4) this assms(5,3), of w] assms(6)
  show "map_option fst (Interpret P w (body segs @ lit @ startSeq @ s)) =
           Some (Some (LuaError
             (line_of (body segs @ lit @ startSeq @ s)
                      (length (body segs @ lit @ startSeq @ s))) msg))"
    by (simp add: line_of_def newlines_startSeq)
next
  assume "Interpret Q v src = Some (None, st')"
  then show "line st' = 1 + newlines src" by (rule Interpret_line)
qed

text \<open>
  A failing region on the second line of its document, closed and cut off, and a
  document of two lines that is interpreted without error.
\<close>

theorem reported_line_is_counter_at_dispatch_witness:
  \<open>map_option fst (Interpret demo [] ''a\<newline><?lua error("boom") ?>\<newline>b'') =
      Some (Some (LuaError 2 ''<string>:1: boom'')) \<and>
    map_option fst (Interpret demo [] ''a\<newline><?lua error("boom") '') =
      Some (Some (LuaError 2 ''<string>:1: boom'')) \<and>
    Interpret demo [] ''a\<newline><?lua print(1) ?>'' =
       Some (None, \<lparr>out = ''a\<newline>1\<newline>'', L = (), luaOut = [], luaIn = [], inCode = False,
                    line = 2, dispatched = [('' print(1) '', [])]\<rparr>) \<and>
    line \<lparr>out = ''a\<newline>1\<newline>'', L = (), luaOut = [], luaIn = [], inCode = False,
           line = 2, dispatched = [('' print(1) '', [])]\<rparr>
      = 1 + newlines ''a\<newline><?lua print(1) ?>''\<close>
proof -
  have h1: "Write demo = Buffer_Write" by (simp add: demo_def)
  have h2: "well_formed []" by (simp add: well_formed_def)
  have h3: "render demo (NewState demo) [] = Some ((), [])" by simp
  have h4: "\<not> occurs startSeq ''a\<newline>''" by (simp add: startSeq_def)
  have h5: \<open>\<not> occurs endSeq '' error("boom") ''\<close> by (simp add: endSeq_def)
  have h6: \<open>DoString demo () '' error("boom") '' = Raised () [] ''<string>:1: boom''\<close>
    by (simp add: demo_simps)
  have h7: \<open>Interpret demo [] ''a\<newline><?lua print(1) ?>'' =
       Some (None, \<lparr>out = ''a\<newline>1\<newline>'', L = (), luaOut = [], luaIn = [], inCode = False,
                    line = 2, dispatched = [('' print(1) '', [])]\<rparr>)\<close>
    by (simp add: demo_simps run_simps)
  have h8: \<open>'' error("boom") '' \<noteq> []\<close> by simp
  have d: \<open>body [] @ ''a\<newline>'' @ startSeq @ '' error("boom") '' @ endSeq @ ''\<newline>b''
      = ''a\<newline><?lua error("boom") ?>\<newline>b''\<close>
    \<open>body [] @ ''a\<newline>'' @ startSeq @ '' error("boom") '' = ''a\<newline><?lua error("boom") ''\<close>
    by (simp_all add: demo_simps)
  have n: \<open>line_of ''a\<newline><?lua error("boom") ?>\<newline>b''
              (length ''a\<newline><?lua error("boom") '') = 2\<close>
    \<open>line_of ''a\<newline><?lua error("boom") '' (length ''a\<newline><?lua error("boom") '') = 2\<close>
    by (simp_all add: line_of_def newlines_def)
  from reported_line_is_counter_at_dispatch [OF h1 h2 h3 h4 h5 h6, of "[]" "''\<newline>b''" demo "[]"
       \<open>''a\<newline><?lua print(1) ?>''\<close>
       \<open>\<lparr>out = ''a\<newline>1\<newline>'', L = (), luaOut = [], luaIn = [], inCode = False,
          line = 2, dispatched = [('' print(1) '', [])]\<rparr>\<close>]
  show ?thesis
    unfolding d n using h7 h8 by simp
qed

subsection \<open>C6: the end of the document inside a region\<close>

text \<open>
  Claim C6. If the scan reaches the end of the document in InScript mode, then:
  when the Pending Script Buffer is not empty, its content is executed as a last
  dispatch and on success the captured output is appended to the Result Stream,
  no truncation error being raised; when the Pending Script Buffer is empty, no
  further execution takes place.

  The first part is \<^verbatim>\<open>Interpret\<close> on a document whose last region \<open>b\<close> is cut off:
  \<open>b\<close> is dispatched after the regions in front, its output follows the literal
  text \<open>lit\<close>, and the call returns \<^verbatim>\<open>nil\<close>. The second part is the code after the
  loop (lines 143-155) in any state with an empty \<^verbatim>\<open>luaIn\<close>: it returns \<^verbatim>\<open>nil\<close> and
  leaves the state, and so the log of dispatches, as it is. By lemma
  \<open>pending_nonempty_at_EOF\<close> the loop never ends in InScript mode with an empty
  \<^verbatim>\<open>luaIn\<close>, since \<^verbatim>\<open>isStart\<close> wants a byte after the open marker.
\<close>

theorem unterminated_region_runs_at_EOF:
  assumes "Write P = Buffer_Write" "well_formed segs"
    and "render P (NewState P) segs = Some (l1, res)"
    and "open_tail_ok lit b"
    and "DoString P l1 b = Finished l2 calls"
  shows "Interpret P w (body segs @ lit @ startSeq @ b) =
           Some (None,
             \<lparr>out = w @ res @ lit @ printed P calls, L = l2, luaOut = printed P calls,
              luaIn = b, inCode = True, line = 1 + newlines (body segs @ lit @ b),
              dispatched = map (\<lambda>(lit, s). (s, [])) segs @ [(b, [])]\<rparr>) \<and>
         (luaIn st = [] \<longrightarrow> atEOF Q st = Some (None, st))"
proof -
  from assms(4) have "\<not> occurs startSeq lit" "b \<noteq> []" "\<not> occurs endSeq b"
    by (simp_all add: open_tail_ok_def)
  from Interpret_open_tail [OF assms(1,2) this assms(3), of w] assms(5)
  show ?thesis by (simp add: atEOF_def)
qed

theorem unterminated_region_runs_at_EOF_witness:
  \<open>Interpret demo [] ''a<?lua print(1) '' =
     Some (None, \<lparr>out = ''a1\<newline>'', L = (), luaOut = ''1\<newline>'', luaIn = '' print(1) '',
                  inCode = True, line = 1, dispatched = [('' print(1) '', [])]\<rparr>) \<and>
   atEOF demo \<lparr>out = ''a'', L = (), luaOut = [], luaIn = [], inCode = True, line = 1,
               dispatched = []\<rparr>
     = Some (None, \<lparr>out = ''a'', L = (), luaOut = [], luaIn = [], inCode = True, line = 1,
                    dispatched = []\<rparr>)\<close>
proof -
  have h1: "Write demo = Buffer_Write" by (simp add: demo_def)
  have h2: "well_formed []" by (simp add: well_formed_def)
  have h3: "render demo (NewState demo) [] = Some ((), [])" by simp
  have h4: "open_tail_ok ''a'' '' print(1) ''" by (simp add: demo_simps)
  have h5: "DoString demo () '' print(1) '' = Finished () [[LNumber 1]]"
    by (simp add: demo_simps)
  show ?thesis
    using unterminated_region_runs_at_EOF [OF h1 h2 h3 h4 h5, of "[]"
      "\<lparr>out = ''a'', L = (), luaOut = [], luaIn = [], inCode = True, line = 1, dispatched = []\<rparr>"
      demo]
    by (simp add: demo_simps)
qed


subsection \<open>C7: the open marker at the end of the document\<close>

text \<open>
  Claim C7. \<^verbatim>\<open>isStart\<close> is true if and only if the five bytes \<^verbatim>\<open><?lua\<close> match the
  document at the offset with the match lying inside the bounds of the document.

  Lemma \<open>isStart_iff\<close> gives what the code computes: the five bytes match and
  \<open>start + 5 < length slice\<close>, that is, one more byte follows the marker. The bound
  of \<^verbatim>\<open>isEnd\<close> is exact; the one of \<^verbatim>\<open>isStart\<close> refuses a marker that ends where the
  document ends. For the document \<^verbatim>\<open><?lua\<close> and offset 0 the match lies inside the
  bounds, \<^verbatim>\<open>isStart\<close> is false, and \<^verbatim>\<open>Interpret\<close> copies the marker to the destination.
\<close>

theorem isStart_misses_marker_at_end:
  "isStart 0 ''<?lua'' = False \<and>
   take (length startSeq) (drop 0 ''<?lua'') = startSeq \<and>
   0 + length startSeq \<le> length ''<?lua'' \<and>
   map_option (out \<circ> snd) (Interpret demo [] ''<?lua'') = Some ''<?lua''"
  by (simp add: demo_simps run_simps)

subsection \<open>C8: the print binding\<close>

text \<open>
  Claim C8. A call of the print binding with arguments \<open>v1 .. vn\<close> appends to the
  Script Output Buffer the texts of the arguments, separated by exactly one space
  each, and then exactly one newline; it returns no value to the script, changes
  nothing but the Script Output Buffer, and over the calls of one execution the
  buffer only grows at its end.

  \<open>print\<close> takes and gives the buffer and nothing else of the state; the second
  component of its result is the number of values returned to the script.
  \<open>run_prints\<close> is a sequence of calls.
\<close>

theorem print_appends_spaced_line:
  "print S args buf = (buf @ spaced (map S args) @ [CHR 0x0A], 0) \<and>
   run_prints S calls buf =
     buf @ concat (map (\<lambda>args. spaced (map S args) @ [CHR 0x0A]) calls)"
  by (simp add: print_eq run_prints_eq)

theorem print_appends_spaced_line_witness:
  "print lvalue_String [LString ''a'', LNumber 1, LString ''b''] ''x'' = (''xa 1 b\<newline>'', 0) \<and>
   run_prints lvalue_String [[LString ''a'', LNumber 1], [], [LNumber 20]] ''x''
     = ''xa 1\<newline>\<newline>20\<newline>''"
  using print_appends_spaced_line [of lvalue_String "[LString ''a'', LNumber 1, LString ''b'']"
      "''x''" "[[LString ''a'', LNumber 1], [], [LNumber 20]]"]
  by (simp add: decimal.simps)

subsection \<open>C9: errors of the destination\<close>

text \<open>
  Claim C9. Every failure of a write to the destination is returned by
  \<^verbatim>\<open>Interpret\<close> at once, for the byte-wise copies of literal text and for the
  flushes of the script output alike.

  The code checks the result of the write of line 137 and drops the results of
  the writes of lines 126 and 152. With a writer that refuses every write, the
  document \<^verbatim>\<open><?lua print(1) ?>\<close> is interpreted with result \<^verbatim>\<open>nil\<close> although the
  write of its output failed, and so is the document without the close marker;
  the document \<^verbatim>\<open>a\<close> gives the error of the writer.
\<close>

theorem flush_write_error_is_dropped:
  \<open>Closed_Write [] ''1\<newline>'' = ([], Some ''io: read/write on closed pipe'') \<and>
   map_option (\<lambda>(e, st). (e, out st)) (Interpret demo_closed [] ''<?lua print(1) ?>'')
     = Some (None, []) \<and>
   map_option (\<lambda>(e, st). (e, out st)) (Interpret demo_closed [] ''<?lua print(1) '')
     = Some (None, []) \<and>
   map_option (\<lambda>(e, st). (e, out st)) (Interpret demo_closed [] ''a'')
     = Some (Some (WriteError ''io: read/write on closed pipe''), [])\<close>
  by (simp add: demo_simps run_simps)

subsection \<open>C10: markers are recognised without regard to the script\<close>

text \<open>
  Claim C10. Once in InScript mode, the region ends at the first occurrence of
  \<^verbatim>\<open>?>\<close> after the open marker, whatever the script contains: a \<^verbatim>\<open>?>\<close> inside a Lua
  string literal ends the region, and a \<^verbatim>\<open><?lua\<close> inside a region is script text and
  opens no nested region.

  The only condition on the script \<open>s\<close> is that \<^verbatim>\<open>?>\<close> does not occur in it, so the
  close marker behind it is the first one after the open marker; \<open>s\<close> may contain
  \<^verbatim>\<open><?lua\<close>, and \<open>rest\<close> is any text. The chunk given to the interpreter is \<open>s\<close>, and
  after it the scan goes on with \<open>rest\<close> in Literal mode.
\<close>

theorem region_ends_at_first_close:
  assumes "Write P = Buffer_Write" "\<not> occurs startSeq lit" "\<not> occurs endSeq s"
  shows "Interpret P w (lit @ startSeq @ s @ endSeq @ rest) =
     (case DoString P (NewState P) s of
        Hangs \<Rightarrow> None
      | Raised l2 calls msg \<Rightarrow>
          Some (Some (LuaError (1 + newlines (lit @ s)) msg),
                \<lparr>out = w @ lit, L = l2, luaOut = printed P calls, luaIn = s,
                 inCode = True, line = 1 + newlines (lit @ s),
                 dispatched = [(s, [])]\<rparr>)
      | Finished l2 calls \<Rightarrow>
          loop P rest 0
            \<lparr>out = w @ lit @ printed P calls, L = l2, luaOut = [], luaIn = [],
             inCode = False, line = 1 + newlines (lit @ s),
             dispatched = [(s, [])]\<rparr>)"
proof -
  have "well_formed []" by (simp add: well_formed_def)
  moreover have "render P (NewState P) [] = Some (NewState P, [])" by simp
  ultimately show ?thesis
    using Interpret_region [OF assms(1) _ assms(2,3), of "[]" "NewState P" "[]" w rest]
    by (simp add: body_Nil split: outcome.splits)
qed

text \<open>
  In \<^verbatim>\<open>x<?lua print(1) --<?lua ?>y\<close> the second \<^verbatim>\<open><?lua\<close> is part of the chunk (a Lua
  comment). In \<^verbatim>\<open><?lua print("a?>b") ?>\<close> the region ends inside the string
  literal: the chunk is \<^verbatim>\<open> print("a\<close>, which does not parse.
\<close>

theorem region_ends_at_first_close_witness:
  \<open>map_option (\<lambda>(e, st). (e, out st, dispatched st))
      (Interpret demo [] ''x<?lua print(1) --<?lua ?>y'') =
     Some (None, ''x1\<newline>y'', [('' print(1) --<?lua '', [])]) \<and>
   map_option (\<lambda>(e, st). (e, out st, dispatched st))
      (Interpret demo [] ''<?lua print("a?>b") ?>'') =
     Some (Some (LuaError 1 ''<string>: syntax error''), [], [('' print("a'', [])])\<close>
proof -
  have h1: "Write demo = Buffer_Write" by (simp add: demo_def)
  have a2: "\<not> occurs startSeq ''x''" by (simp add: startSeq_def)
  have a3: "\<not> occurs endSeq '' print(1) --<?lua ''" by (simp add: endSeq_def)
  have b2: "\<not> occurs startSeq []" by (simp add: startSeq_def)
  have b3: \<open>\<not> occurs endSeq '' print("a''\<close> by (simp add: endSeq_def)
  have t: "loop demo ''y'' 0 st =
      Some (None, st\<lparr>line := line st + newlines ''y'', out := out st @ ''y''\<rparr>)"
    if "\<not> inCode st" for st
    using that h1 by (intro tail_run) (simp_all add: startSeq_def)
  show ?thesis
    using region_ends_at_first_close [OF h1 a2 a3, of "[]" "''y''"]
      region_ends_at_first_close [OF h1 b2 b3, of "[]" \<open>''b") ?>''\<close>]
    by (simp add: demo_simps t [unfolded demo_def])
qed


end
